theory Spec2Isabelle
  imports
    Main
    "HOL-Library.Word"
    "HOL-Library.Char_ord"
    "HOL-Library.List_Lexorder"
    "HOL-Library.AList"
    "HOL-Library.Multiset"
begin

unbundle bit_operations_syntax

section \<open>Strings and bytes\<close>

text \<open>
  A Go \<^verbatim>\<open>string\<close> is a sequence of bytes; it is modelled by \<^typ>\<open>string\<close>, a list of
  eight-bit characters. A Go \<^verbatim>\<open>[]byte\<close> is a list of eight-bit words. The conversion
  \<^verbatim>\<open>[]byte(s)\<close> keeps every byte.
\<close>

type_synonym byte = "8 word"

definition bytes_of_string :: "string \<Rightarrow> byte list" where
  "bytes_of_string s = map of_char s"

section \<open>The escaping of file names\<close>

text \<open>
  \<^verbatim>\<open>strings.NewReplacer(old1, new1, old2, new2, ...).Replace(x)\<close> of Go's standard library:
  the replacements are performed in the order in which they appear in the target string, without
  overlapping matches, and the old strings are compared in argument order. \<open>lookupPair\<close> finds the
  first pair whose old string starts the rest of the target. Pairs with an empty old string are
  passed over: the one replacer of this program has two old strings of one byte each.
\<close>

fun lookupPair :: "(string \<times> string) list \<Rightarrow> string \<Rightarrow> (string \<times> string) option" where
  "lookupPair [] s = None"
| "lookupPair ((old, new) # ps) s =
     (if old \<noteq> [] \<and> take (length old) s = old then Some (old, new) else lookupPair ps s)"

lemma lookupPair_nonempty: "lookupPair ps s = Some (old, new) \<Longrightarrow> old \<noteq> []"
  by (induction ps) (auto split: if_splits)

function Replace :: "(string \<times> string) list \<Rightarrow> string \<Rightarrow> string" where
  "Replace ps [] = []"
| "Replace ps (c # cs) =
     (case lookupPair ps (c # cs) of
        Some (old, new) \<Rightarrow> new @ Replace ps (drop (length old) (c # cs))
      | None \<Rightarrow> c # Replace ps cs)"
  by pat_completeness auto
termination
proof (relation "measure (\<lambda>(ps, s). length s)")
  show "wf (measure (\<lambda>(ps, s). length s))"
    by simp
next
  fix ps :: "(string \<times> string) list" and c cs x2 old new
  assume "lookupPair ps (c # cs) = Some x2" and "(old, new) = x2"
  then have "old \<noteq> []"
    using lookupPair_nonempty by metis
  then show "((ps, drop (length old) (c # cs)), (ps, c # cs)) \<in> measure (\<lambda>(ps, s). length s)"
    by (cases old) simp_all
next
  fix ps :: "(string \<times> string) list" and c cs
  show "((ps, cs), (ps, c # cs)) \<in> measure (\<lambda>(ps, s). length s)"
    by simp
qed

text \<open>
  \<^verbatim>\<open>func escape(x string) string\<close>: the replacer built from the pairs
  backslash, two backslashes and double quote, backslash double quote.
  \<open>CHR 0x5C\<close> is the backslash and \<open>CHR 0x22\<close> the double quote.
\<close>

definition escape :: "string \<Rightarrow> string" where
  "escape x =
     Replace [([CHR 0x5C], [CHR 0x5C, CHR 0x5C]), ([CHR 0x22], [CHR 0x5C, CHR 0x22])] x"

subsection \<open>The escaping rule in the words of the documentation\<close>

text \<open>
  The package comment and the specification give the rule character by character: a
  backslash becomes two backslashes, a double quote becomes a backslash and a double quote,
  and no other character is escaped.
\<close>

definition escape_char :: "char \<Rightarrow> string" where
  "escape_char c =
     (if c = CHR 0x5C then [CHR 0x5C, CHR 0x5C]
      else if c = CHR 0x22 then [CHR 0x5C, CHR 0x22]
      else [c])"

definition escape_spec :: "string \<Rightarrow> string" where
  "escape_spec s = concat (map escape_char s)"

text \<open>Replacing every occurrence of one character, for the rule read as two passes.\<close>

definition replace_all :: "char \<Rightarrow> string \<Rightarrow> string \<Rightarrow> string" where
  "replace_all c r s = concat (map (\<lambda>x. if x = c then r else [x]) s)"

definition escape_two_passes :: "string \<Rightarrow> string" where
  "escape_two_passes s =
     replace_all (CHR 0x22) [CHR 0x5C, CHR 0x22] (replace_all (CHR 0x5C) [CHR 0x5C, CHR 0x5C] s)"

text \<open>
  The inverse rule of the specification: read from the left, a backslash followed by a
  backslash or by a double quote stands for that second character.
\<close>

fun unescape :: "string \<Rightarrow> string" where
  "unescape [] = []"
| "unescape [c] = [c]"
| "unescape (c # d # cs) =
     (if c = CHR 0x5C \<and> (d = CHR 0x5C \<or> d = CHR 0x22) then d # unescape cs
      else c # unescape (d # cs))"

section \<open>SHA-256\<close>

text \<open>
  \<^verbatim>\<open>crypto/sha256\<close> of Go's standard library, which is not part of the repository:
  \<^verbatim>\<open>sha256.New()\<close>, one \<^verbatim>\<open>Write\<close> of the whole input and \<^verbatim>\<open>Sum(nil)\<close> compute the SHA-256 digest
  of the input as FIPS 180-4 defines it. \<^verbatim>\<open>Write\<close> of a hash never returns an error, so the
  error branch after it in the source is never taken. Words are 32 bits wide and every
  addition wraps around.

  The logical functions and the rotation to the right:
\<close>

type_synonym u32 = "32 word"

definition rotr :: "nat \<Rightarrow> u32 \<Rightarrow> u32" where
  "rotr n x = drop_bit n x OR push_bit (32 - n) x"

definition Ch :: "u32 \<Rightarrow> u32 \<Rightarrow> u32 \<Rightarrow> u32" where
  "Ch x y z = (x AND y) XOR (NOT x AND z)"

definition Maj :: "u32 \<Rightarrow> u32 \<Rightarrow> u32 \<Rightarrow> u32" where
  "Maj x y z = (x AND y) XOR (x AND z) XOR (y AND z)"

definition Sigma0 :: "u32 \<Rightarrow> u32" where
  "Sigma0 x = rotr 2 x XOR rotr 13 x XOR rotr 22 x"

definition Sigma1 :: "u32 \<Rightarrow> u32" where
  "Sigma1 x = rotr 6 x XOR rotr 11 x XOR rotr 25 x"

definition sigma0 :: "u32 \<Rightarrow> u32" where
  "sigma0 x = rotr 7 x XOR rotr 18 x XOR drop_bit 3 x"

definition sigma1 :: "u32 \<Rightarrow> u32" where
  "sigma1 x = rotr 17 x XOR rotr 19 x XOR drop_bit 10 x"

text \<open>
  The 64 round constants (the first 32 bits of the fractional parts of the cube roots of the
  first 64 primes) and the initial hash value (the same of the square roots of the first 8
  primes).
\<close>

definition K256 :: "u32 list" where
  "K256 =
    [0x428A2F98, 0x71374491, 0xB5C0FBCF, 0xE9B5DBA5, 0x3956C25B, 0x59F111F1, 0x923F82A4, 0xAB1C5ED5,
     0xD807AA98, 0x12835B01, 0x243185BE, 0x550C7DC3, 0x72BE5D74, 0x80DEB1FE, 0x9BDC06A7, 0xC19BF174,
     0xE49B69C1, 0xEFBE4786, 0x0FC19DC6, 0x240CA1CC, 0x2DE92C6F, 0x4A7484AA, 0x5CB0A9DC, 0x76F988DA,
     0x983E5152, 0xA831C66D, 0xB00327C8, 0xBF597FC7, 0xC6E00BF3, 0xD5A79147, 0x06CA6351, 0x14292967,
     0x27B70A85, 0x2E1B2138, 0x4D2C6DFC, 0x53380D13, 0x650A7354, 0x766A0ABB, 0x81C2C92E, 0x92722C85,
     0xA2BFE8A1, 0xA81A664B, 0xC24B8B70, 0xC76C51A3, 0xD192E819, 0xD6990624, 0xF40E3585, 0x106AA070,
     0x19A4C116, 0x1E376C08, 0x2748774C, 0x34B0BCB5, 0x391C0CB3, 0x4ED8AA4A, 0x5B9CCA4F, 0x682E6FF3,
     0x748F82EE, 0x78A5636F, 0x84C87814, 0x8CC70208, 0x90BEFFFA, 0xA4506CEB, 0xBEF9A3F7, 0xC67178F2]"

type_synonym sha_state = "u32 \<times> u32 \<times> u32 \<times> u32 \<times> u32 \<times> u32 \<times> u32 \<times> u32"

definition H256 :: sha_state where
  "H256 = (0x6A09E667, 0xBB67AE85, 0x3C6EF372, 0xA54FF53A,
           0x510E527F, 0x9B05688C, 0x1F83D9AB, 0x5BE0CD19)"

text \<open>Words to bytes and bytes to words, the most significant byte first.\<close>

definition be32 :: "u32 \<Rightarrow> byte list" where
  "be32 x = [ucast (drop_bit 24 x), ucast (drop_bit 16 x), ucast (drop_bit 8 x), ucast x]"

definition be64 :: "64 word \<Rightarrow> byte list" where
  "be64 x = map (\<lambda>i. ucast (drop_bit (8 * i) x)) [7, 6, 5, 4, 3, 2, 1, 0]"

fun word_of_bytes :: "byte list \<Rightarrow> u32" where
  "word_of_bytes [] = 0"
| "word_of_bytes (b # bs) = push_bit (8 * length bs) (ucast b) OR word_of_bytes bs"

text \<open>
  The padded message: the byte \<open>0x80\<close>, zero bytes up to a length of 56 modulo 64, and the
  length of the message in bits as a 64-bit number. \<open>chunks\<close> cuts a list into pieces of
  \<open>n\<close> elements: the blocks of 64 bytes, and the 16 words of a block.
\<close>

definition padding :: "byte list \<Rightarrow> byte list" where
  "padding m =
     m @ [0x80] @ replicate ((119 - length m mod 64) mod 64) 0 @ be64 (push_bit 3 (of_nat (length m)))"

fun chunks :: "nat \<Rightarrow> 'a list \<Rightarrow> 'a list list" where
  "chunks n xs = (if n = 0 \<or> xs = [] then [] else take n xs # chunks n (drop n xs))"

text \<open>
  The message schedule (\<open>schedule 48\<close> extends the 16 words of a block to 64), one round of
  the compression, the compression of one block into the hash value, and the digest: the
  eight words of the last hash value as 32 bytes.
\<close>

fun schedule :: "nat \<Rightarrow> u32 list \<Rightarrow> u32 list" where
  "schedule 0 w = w"
| "schedule (Suc n) w =
     (let t = length w
      in schedule n (w @ [sigma1 (w ! (t - 2)) + w ! (t - 7) + sigma0 (w ! (t - 15)) + w ! (t - 16)]))"

fun round256 :: "u32 \<times> u32 \<Rightarrow> sha_state \<Rightarrow> sha_state" where
  "round256 (k, w) (a, b, c, d, e, f, g, h) =
     (let t1 = h + Sigma1 e + Ch e f g + k + w;
          t2 = Sigma0 a + Maj a b c
      in (t1 + t2, a, b, c, d + t1, e, f, g))"

fun add_state :: "sha_state \<Rightarrow> sha_state \<Rightarrow> sha_state" where
  "add_state (a, b, c, d, e, f, g, h) (a', b', c', d', e', f', g', h') =
     (a + a', b + b', c + c', d + d', e + e', f + f', g + g', h + h')"

definition block :: "byte list \<Rightarrow> sha_state \<Rightarrow> sha_state" where
  "block p st =
     add_state st (fold round256 (zip K256 (schedule 48 (map word_of_bytes (chunks 4 p)))) st)"

fun digest_bytes :: "sha_state \<Rightarrow> byte list" where
  "digest_bytes (a, b, c, d, e, f, g, h) =
     be32 a @ be32 b @ be32 c @ be32 d @ be32 e @ be32 f @ be32 g @ be32 h"

definition sha256 :: "byte list \<Rightarrow> byte list" where
  "sha256 m = digest_bytes (fold block (chunks 64 (padding m)) H256)"

text \<open>
  \<^verbatim>\<open>fmt.Sprintf("%X", hash)\<close> for a byte slice: two upper-case hexadecimal digits for each
  byte, the high half first.
\<close>

definition hexdigit :: "byte \<Rightarrow> char" where
  "hexdigit n = ''0123456789ABCDEF'' ! unat n"

definition hexX :: "byte list \<Rightarrow> string" where
  "hexX bs = concat (map (\<lambda>b. [hexdigit (drop_bit 4 b), hexdigit (b AND 0xF)]) bs)"

section \<open>The file system as the program observes it\<close>

text \<open>
  The program reaches the file system through five calls. An object of type \<open>fsobj\<close> records
  what each of them returns for one path: \<^verbatim>\<open>os.Open(path)\<close> (its error, if any),
  \<^verbatim>\<open>file.Stat()\<close> (its error, if any), \<^verbatim>\<open>info.IsDir()\<close>, \<^verbatim>\<open>file.Readdir(0)\<close> (an error or
  the entries in the order of the enumeration) and \<^verbatim>\<open>ioutil.ReadFile(path)\<close> (an error or the
  bytes read). An entry of a directory carries its \<^verbatim>\<open>Name()\<close>, its \<^verbatim>\<open>IsDir()\<close> and the object
  found at \<^verbatim>\<open>path + "/" + x.Name()\<close>. A symbolic link or a device node is an entry whose
  \<^verbatim>\<open>IsDir()\<close> is false (\<^verbatim>\<open>Readdir\<close> does not follow links), so the objects that the recursion
  of the program reaches form a finite tree, and the recursion ends.

  An error is either the value of \<^verbatim>\<open>errors.New\<close> with its message, or an error of the operating
  system, kept as a number.
\<close>

datatype error = ErrorsNew string | OSError nat

datatype fsobj =
  FsObj (os_Open: "error option") (file_Stat: "error option") (info_IsDir: bool)
        (file_Readdir: "error + dirent list") (ioutil_ReadFile: "error + byte list")
and dirent =
  Dirent (Name: string) (IsDir: bool) (at_path: fsobj)

section \<open>HashFile and HashDir\<close>

text \<open>
  A Go \<^verbatim>\<open>map[string]string\<close> is an association list with one pair for each key:
  \<^verbatim>\<open>m[k] = v\<close> is \<^const>\<open>AList.update\<close>, and \<^verbatim>\<open>m[k]\<close> is \<open>index\<close>, the empty string for a
  key that is absent. \<open>rangeKeys\<close> are the keys as \<^verbatim>\<open>for k, _ := range m\<close> appends them; Go leaves
  the order of that iteration open, and \<^verbatim>\<open>sort.Strings\<close> gives the same list for every order
  (lemma \<open>sortStrings_any_order\<close>). \<^verbatim>\<open>sort.Strings\<close> orders strings as Go's \<^verbatim>\<open><\<close> does: byte by
  byte, a proper prefix first. This is the order of \<^typ>\<open>string\<close> here (characters by their
  codes, lists lexicographically).
\<close>

type_synonym gomap = "(string \<times> string) list"

definition index :: "gomap \<Rightarrow> string \<Rightarrow> string" where
  "index m k = (case map_of m k of Some v \<Rightarrow> v | None \<Rightarrow> [])"

definition rangeKeys :: "gomap \<Rightarrow> string list" where
  "rangeKeys m = map fst m"

definition sortStrings :: "string list \<Rightarrow> string list" where
  "sortStrings xs = sort xs"

text \<open>\<^verbatim>\<open>func HashFile(path string) ([]byte, error)\<close>\<close>

definition HashFile :: "fsobj \<Rightarrow> error + byte list" where
  "HashFile obj =
     (case ioutil_ReadFile obj of
        Inl err \<Rightarrow> Inl err
      | Inr contents \<Rightarrow> Inr (sha256 contents))"

text \<open>
  The two loops that write the lines of the pseudo-file: for each path in turn, the value of
  the map, a space, and the escaped path between double quotes, ended by a newline
  (\<open>CHR 0x0A\<close>).
\<close>

fun appendLines :: "gomap \<Rightarrow> string list \<Rightarrow> string \<Rightarrow> string" where
  "appendLines m [] pseudoFile = pseudoFile"
| "appendLines m (p # ps) pseudoFile =
     appendLines m ps
       (pseudoFile @ index m p @ [CHR '' '', CHR 0x22] @ escape p @ [CHR 0x22, CHR 0x0A])"

text \<open>The pseudo-file of the two maps: the sorted keys, then the lines around the separator.\<close>

definition pseudoFile_of :: "gomap \<Rightarrow> gomap \<Rightarrow> string" where
  "pseudoFile_of dirs files =
     (let dirPaths = sortStrings (rangeKeys dirs);
          filePaths = sortStrings (rangeKeys files);
          pseudoFile = appendLines dirs dirPaths [];
          pseudoFile = pseudoFile @ [CHR ''='', CHR 0x0A]
      in appendLines files filePaths pseudoFile)"

text \<open>
  \<^verbatim>\<open>func HashDir(path string) ([]byte, error)\<close>, in three parts that call each other:
  \<open>hashContents\<close> is the loop over the contents of the directory, with the two maps as they
  grow; \<open>HashDir_pseudoFile\<close> is the function up to the pseudo-file (the string that the
  source also writes to the log); \<open>HashDir\<close> hashes the pseudo-file. The argument is the
  object at the path. Closing the file and writing to the log do not change the result and
  are left out.
\<close>

lemma size_at_path [termination_simp]: "size (at_path x) < size x"
  by (cases x) simp

fun HashDir :: "fsobj \<Rightarrow> error + byte list"
  and HashDir_pseudoFile :: "fsobj \<Rightarrow> error + string"
  and hashContents :: "dirent list \<Rightarrow> gomap \<Rightarrow> gomap \<Rightarrow> error + gomap \<times> gomap" where
  "HashDir obj =
     (case HashDir_pseudoFile obj of
        Inl err \<Rightarrow> Inl err
      | Inr pseudoFile \<Rightarrow> Inr (sha256 (bytes_of_string pseudoFile)))"
| "HashDir_pseudoFile (FsObj open_err stat_err isDir readdir readFile) =
     (case open_err of Some err \<Rightarrow> Inl err | None \<Rightarrow>
      (case stat_err of Some err \<Rightarrow> Inl err | None \<Rightarrow>
       if \<not> isDir then Inl (ErrorsNew ''not a directory'')
       else (case readdir of Inl err \<Rightarrow> Inl err | Inr contents \<Rightarrow>
         (case hashContents contents [] [] of
            Inl err \<Rightarrow> Inl err
          | Inr (dirs, files) \<Rightarrow> Inr (pseudoFile_of dirs files)))))"
| "hashContents [] dirs files = Inr (dirs, files)"
| "hashContents (x # xs) dirs files =
     (if IsDir x then
        (case HashDir (at_path x) of
           Inl err \<Rightarrow> Inl err
         | Inr hash \<Rightarrow> hashContents xs (AList.update (Name x) (hexX hash) dirs) files)
      else
        (case HashFile (at_path x) of
           Inl err \<Rightarrow> Inl err
         | Inr hash \<Rightarrow> hashContents xs dirs (AList.update (Name x) (hexX hash) files)))"

section \<open>Notions used in the statements\<close>

text \<open>
  What the body of the loop computes for one entry: \<open>HashDir\<close> for an entry whose
  \<^verbatim>\<open>IsDir()\<close> holds, \<open>HashFile\<close> for every other entry.
\<close>

definition hashChild :: "dirent \<Rightarrow> error + byte list" where
  "hashChild x = (if IsDir x then HashDir (at_path x) else HashFile (at_path x))"

text \<open>
  The map that the loop has built from the entries of one kind (\<open>b\<close> tells the kind) once
  every entry has been hashed.
\<close>

fun collect :: "bool \<Rightarrow> dirent list \<Rightarrow> gomap \<Rightarrow> gomap" where
  "collect b [] m = m"
| "collect b (x # xs) m =
     collect b xs
       (if IsDir x = b
        then (case hashChild x of Inl err \<Rightarrow> m | Inr hash \<Rightarrow> AList.update (Name x) (hexX hash) m)
        else m)"

text \<open>
  One line of the pseudo-file in the words of the documentation: the hash in hexadecimal, a
  space, the escaped name between double quotes, a newline. \<open>sorted_entries\<close> are the pairs
  of a map in the order of the sorted keys.
\<close>

definition entry_line :: "string \<times> string \<Rightarrow> string" where
  "entry_line e = snd e @ [CHR '' '', CHR 0x22] @ escape (fst e) @ [CHR 0x22, CHR 0x0A]"

definition sorted_entries :: "gomap \<Rightarrow> gomap" where
  "sorted_entries m = map (\<lambda>p. (p, index m p)) (sortStrings (rangeKeys m))"

text \<open>
  The lines of a text: the pieces that end with a newline, without it (and the rest after the
  last newline, if there is one).
\<close>

fun lines_of :: "string \<Rightarrow> string list" where
  "lines_of [] = []"
| "lines_of (c # cs) =
     (if c = CHR 0x0A then [] # lines_of cs
      else (case lines_of cs of [] \<Rightarrow> [[c]] | l # ls \<Rightarrow> (c # l) # ls))"

text \<open>The digest (or the pseudo-file) that a run returns, if it returns one.\<close>

definition digest_of :: "error + 'a \<Rightarrow> 'a option" where
  "digest_of r = (case r of Inl err \<Rightarrow> None | Inr v \<Rightarrow> Some v)"

text \<open>
  A readable regular file and a readable directory as Linux shows them: listing a regular
  file fails with \<^verbatim>\<open>ENOTDIR\<close> (20), reading a directory fails with \<^verbatim>\<open>EISDIR\<close> (21).
\<close>

definition regular_file :: "byte list \<Rightarrow> fsobj" where
  "regular_file contents = FsObj None None False (Inl (OSError 20)) (Inr contents)"

definition directory :: "dirent list \<Rightarrow> fsobj" where
  "directory contents = FsObj None None True (Inr contents) (Inl (OSError 21))"

text \<open>
  Two objects that show the same tree under two enumerations: at every directory the
  entries of the second are those of the first in some order (with the names of a directory
  all different), and the entries of the same name show the same tree in turn.
\<close>

inductive same_tree :: "fsobj \<Rightarrow> fsobj \<Rightarrow> bool" where
  unlisted: "same_tree (FsObj open_err stat_err isDir (Inl err) readFile)
                       (FsObj open_err stat_err isDir (Inl err) readFile)"
| listed: "list_all2 (\<lambda>x y. Name x = Name y \<and> IsDir x = IsDir y
                             \<and> same_tree (at_path x) (at_path y)) xs ys
           \<Longrightarrow> mset ys' = mset ys \<Longrightarrow> distinct (map Name xs)
           \<Longrightarrow> same_tree (FsObj open_err stat_err isDir (Inr xs) readFile)
                         (FsObj open_err stat_err isDir (Inr ys') readFile)"

code_pred same_tree .

text \<open>
  The tree of the scenario: \<^verbatim>\<open>root/\<close> holds the empty file \<^verbatim>\<open>empty\<close> and the directory
  \<^verbatim>\<open>sub/\<close>, which holds the file \<^verbatim>\<open>a.txt\<close> with the two bytes \<^verbatim>\<open>hi\<close>.
\<close>

definition scenario_sub :: fsobj where
  "scenario_sub = directory [Dirent ''a.txt'' False (regular_file (bytes_of_string ''hi''))]"

definition scenario_root :: fsobj where
  "scenario_root =
     directory [Dirent ''empty'' False (regular_file []), Dirent ''sub'' True scenario_sub]"

text \<open>
  A regular file that the process may not open: \<^verbatim>\<open>os.Open\<close> and \<^verbatim>\<open>ioutil.ReadFile\<close> fail
  with \<^verbatim>\<open>EACCES\<close> (13).
\<close>

definition unreadable_file :: fsobj where
  "unreadable_file = FsObj (Some (OSError 13)) None False (Inl (OSError 20)) (Inl (OSError 13))"

text \<open>
  A directory with two empty files, one named \<^verbatim>\<open>A\<close> and one named by a single double
  quote.
\<close>

definition quote_dir :: fsobj where
  "quote_dir =
     directory [Dirent ''A'' False (regular_file []), Dirent [CHR 0x22] False (regular_file [])]"

text \<open>
  A directory with one empty file whose name is a carriage return, a newline, an equals sign
  and a newline.
\<close>

definition control_name_dir :: fsobj where
  "control_name_dir =
     directory [Dirent [CHR 0x0D, CHR 0x0A, CHR ''='', CHR 0x0A] False (regular_file [])]"

text \<open>
  A directory whose second entry cannot be read and whose third entry is listed as a
  directory and is none.
\<close>

definition failing_dir :: fsobj where
  "failing_dir =
     directory [Dirent ''a'' False (regular_file []), Dirent ''b'' False unreadable_file,
                Dirent ''c'' True (regular_file [])]"

section \<open>Properties of the escaping\<close>

lemma escape_Nil: "escape [] = []"
  by (simp add: escape_def)

lemma escape_Cons: "escape (c # cs) = escape_char c @ escape cs"
  by (simp add: escape_def escape_char_def)

lemma escape_eq_spec: "escape s = escape_spec s"
  by (induction s) (simp_all add: escape_Nil escape_Cons escape_spec_def)

lemma two_passes_Cons:
  "escape_two_passes (c # cs) = escape_char c @ escape_two_passes cs"
  by (simp add: escape_two_passes_def replace_all_def escape_char_def)

lemma unescape_plain:
  "c \<noteq> CHR 0x5C \<Longrightarrow> unescape (c # r) = c # unescape r"
  by (cases r) simp_all

lemma unescape_escape_char: "unescape (escape_char c @ r) = c # unescape r"
  by (simp add: escape_char_def unescape_plain)

lemma unescape_escape: "unescape (escape s) = s"
  by (induction s) (simp_all add: escape_Nil escape_Cons unescape_escape_char)

text \<open>
  Claim C4. The escaping function replaces every backslash by two backslashes and every double
  quote by a backslash and a double quote, and changes no other character: the replacer of the
  source computes the character-by-character rule of the documentation, which is also the
  result of the two passes (backslashes first, double quotes second); the name
  \<^verbatim>\<open>a"b\c\<close> becomes \<^verbatim>\<open>a\"b\\c\<close>.
\<close>

theorem escape_substitutes:
  "escape s = escape_spec s
   \<and> escape s = escape_two_passes s
   \<and> escape [CHR ''a'', CHR 0x22, CHR ''b'', CHR 0x5C, CHR ''c'']
       = [CHR ''a'', CHR 0x5C, CHR 0x22, CHR ''b'', CHR 0x5C, CHR 0x5C, CHR ''c'']"
proof (intro conjI)
  show "escape s = escape_spec s"
    by (rule escape_eq_spec)
  show "escape s = escape_two_passes s"
  proof (induction s)
    case Nil
    show ?case
      by (simp add: escape_Nil escape_two_passes_def replace_all_def)
  next
    case (Cons c cs)
    then show ?case
      by (simp add: escape_Cons two_passes_Cons)
  qed
  show "escape [CHR ''a'', CHR 0x22, CHR ''b'', CHR 0x5C, CHR ''c'']
       = [CHR ''a'', CHR 0x5C, CHR 0x22, CHR ''b'', CHR 0x5C, CHR 0x5C, CHR ''c'']"
    by (simp add: escape_Nil escape_Cons escape_char_def)
qed

text \<open>
  Claim C6. Escaping is invertible: the inverse rule applied to an escaped name gives the name
  back, so the escaping is injective and the quoted field of a line of the listing determines
  the name.
\<close>

theorem escape_invertible:
  "unescape (escape s) = s \<and> inj escape"
proof
  show "unescape (escape s) = s"
    by (rule unescape_escape)
  show "inj escape"
    by (rule inj_on_inverseI [where g = unescape]) (rule unescape_escape)
qed

section \<open>The loops of HashDir\<close>

lemma sortStrings_any_order: "mset ks = mset ks' \<Longrightarrow> sortStrings ks = sortStrings ks'"
  unfolding sortStrings_def by (rule properties_for_sort) simp_all

lemma appendLines_concat:
  "appendLines m ps acc = acc @ concat (map (\<lambda>p. entry_line (p, index m p)) ps)"
  by (induction ps arbitrary: acc) (simp_all add: entry_line_def)

lemma pseudoFile_of_sections:
  "pseudoFile_of dirs files =
     concat (map entry_line (sorted_entries dirs)) @ [CHR ''='', CHR 0x0A]
       @ concat (map entry_line (sorted_entries files))"
  by (simp add: pseudoFile_of_def Let_def appendLines_concat sorted_entries_def comp_def)

lemma hashContents_ok:
  "\<forall>x \<in> set xs. \<exists>h. hashChild x = Inr h \<Longrightarrow>
     hashContents xs dirs files = Inr (collect True xs dirs, collect False xs files)"
proof (induction xs arbitrary: dirs files)
  case Nil
  show ?case by simp
next
  case (Cons x xs)
  from Cons.prems obtain h where h: "hashChild x = Inr h"
    by auto
  from Cons.prems have rest: "\<forall>x \<in> set xs. \<exists>h. hashChild x = Inr h"
    by simp
  show ?case
  proof (cases "IsDir x")
    case True
    with h have "HashDir (at_path x) = Inr h"
      by (simp add: hashChild_def)
    with True h show ?thesis
      by (simp add: Cons.IH [OF rest])
  next
    case False
    with h have "HashFile (at_path x) = Inr h"
      by (simp add: hashChild_def)
    with False h show ?thesis
      by (simp add: Cons.IH [OF rest])
  qed
qed

lemma hashContents_first_error:
  "\<forall>z \<in> set pre. \<exists>h. hashChild z = Inr h \<Longrightarrow> hashChild y = Inl err \<Longrightarrow>
     hashContents (pre @ y # post) dirs files = Inl err"
proof (induction pre arbitrary: dirs files)
  case Nil
  then show ?case
    by (cases "IsDir y") (simp_all add: hashChild_def)
next
  case (Cons x pre)
  from Cons.prems obtain h where h: "hashChild x = Inr h"
    by auto
  from Cons.prems have rest: "\<forall>z \<in> set pre. \<exists>h. hashChild z = Inr h"
    by simp
  show ?case
  proof (cases "IsDir x")
    case True
    with h have "HashDir (at_path x) = Inr h"
      by (simp add: hashChild_def)
    with True show ?thesis
      by (simp add: Cons.IH [OF rest Cons.prems(2)])
  next
    case False
    with h have "HashFile (at_path x) = Inr h"
      by (simp add: hashChild_def)
    with False show ?thesis
      by (simp add: Cons.IH [OF rest Cons.prems(2)])
  qed
qed

lemma first_failing_child:
  assumes "x \<in> set xs" and "hashChild x = Inl e"
  shows "\<exists>pre y post err. xs = pre @ y # post \<and> (\<forall>z \<in> set pre. \<exists>h. hashChild z = Inr h)
           \<and> hashChild y = Inl err"
proof -
  from assms have "\<exists>x \<in> set xs. isl (hashChild x)"
    by (intro bexI [of _ x]) simp_all
  then obtain pre y post where xs: "xs = pre @ y # post" and y: "isl (hashChild y)"
    and pre: "\<forall>z \<in> set pre. \<not> isl (hashChild z)"
    by (auto simp: split_list_first_prop_iff)
  from y obtain err where "hashChild y = Inl err"
    by (cases "hashChild y") simp_all
  moreover from pre have "\<forall>z \<in> set pre. \<exists>h. hashChild z = Inr h"
    by (metis isl_def sum.collapse(2))
  ultimately show ?thesis
    using xs by blast
qed

lemma hashContents_Inr_children:
  assumes "hashContents xs dirs files = Inr r"
  shows "\<forall>x \<in> set xs. \<exists>h. hashChild x = Inr h"
proof (rule ccontr)
  assume "\<not> (\<forall>x \<in> set xs. \<exists>h. hashChild x = Inr h)"
  then obtain x e where "x \<in> set xs" and "hashChild x = Inl e"
    by (metis sum.exhaust)
  then obtain pre y post err where "xs = pre @ y # post"
    and "\<forall>z \<in> set pre. \<exists>h. hashChild z = Inr h" and "hashChild y = Inl err"
    using first_failing_child by blast
  then have "hashContents xs dirs files = Inl err"
    by (simp add: hashContents_first_error)
  with assms show False
    by simp
qed

lemma hashContents_failure:
  assumes "\<not> (\<forall>x \<in> set xs. \<exists>h. hashChild x = Inr h)"
  shows "\<exists>err. hashContents xs dirs files = Inl err"
proof -
  from assms obtain x e where "x \<in> set xs" and "hashChild x = Inl e"
    by (metis sum.exhaust)
  then obtain pre y post err where "xs = pre @ y # post"
    and "\<forall>z \<in> set pre. \<exists>h. hashChild z = Inr h" and "hashChild y = Inl err"
    using first_failing_child by blast
  then have "hashContents xs dirs files = Inl err"
    by (simp add: hashContents_first_error)
  then show ?thesis ..
qed

lemma HashDir_pseudoFile_success:
  assumes "HashDir_pseudoFile obj = Inr listing"
  obtains contents where "os_Open obj = None" and "file_Stat obj = None" and "info_IsDir obj"
    and "file_Readdir obj = Inr contents"
    and "\<forall>x \<in> set contents. \<exists>h. hashChild x = Inr h"
    and "listing = pseudoFile_of (collect True contents []) (collect False contents [])"
proof (cases obj)
  case (FsObj open_err stat_err isDir readdir readFile)
  from assms FsObj have o: "open_err = None" and s: "stat_err = None" and d: "isDir"
    by (auto split: option.splits if_splits)
  from assms FsObj o s d obtain contents where r: "readdir = Inr contents"
    by (cases readdir) auto
  from assms FsObj o s d r obtain dirs files
    where h: "hashContents contents [] [] = Inr (dirs, files)"
      and l: "listing = pseudoFile_of dirs files"
    by (auto split: sum.splits)
  from h have ok: "\<forall>x \<in> set contents. \<exists>h. hashChild x = Inr h"
    by (rule hashContents_Inr_children)
  from hashContents_ok [OF ok, of "[]" "[]"] h
  have "dirs = collect True contents []" and "files = collect False contents []"
    by simp_all
  with l have "listing = pseudoFile_of (collect True contents []) (collect False contents [])"
    by simp
  with that FsObj o s d r ok show thesis
    by simp
qed

lemma HashDir_Inr:
  "HashDir obj = Inr digest \<Longrightarrow>
     \<exists>listing. HashDir_pseudoFile obj = Inr listing \<and> digest = sha256 (bytes_of_string listing)"
  by (cases "HashDir_pseudoFile obj") auto

lemma digest_of_HashDir:
  "digest_of (HashDir obj)
     = map_option (\<lambda>l. sha256 (bytes_of_string l)) (digest_of (HashDir_pseudoFile obj))"
  by (simp add: digest_of_def split: sum.splits)

section \<open>The two maps and the hexadecimal form\<close>

lemma distinct_collect:
  "distinct (map fst m) \<Longrightarrow> distinct (map fst (collect b xs m))"
  by (induction xs arbitrary: m) (auto simp: distinct_update split: sum.splits)

lemma map_of_collect_absent:
  "n \<notin> Name ` set xs \<Longrightarrow> map_of (collect b xs m) n = map_of m n"
  by (induction xs arbitrary: m) (auto simp: update_conv split: sum.splits)

lemma map_of_collect_present:
  "x \<in> set xs \<Longrightarrow> distinct (map Name xs) \<Longrightarrow> IsDir x = b \<Longrightarrow> hashChild x = Inr h \<Longrightarrow>
     map_of (collect b xs m) (Name x) = Some (hexX h)"
proof (induction xs arbitrary: m)
  case Nil
  then show ?case by simp
next
  case (Cons y ys)
  show ?case
  proof (cases "x = y")
    case True
    with Cons.prems have "Name x \<notin> Name ` set ys"
      by auto
    with True Cons.prems show ?thesis
      by (simp add: map_of_collect_absent update_conv)
  next
    case False
    with Cons.prems have "x \<in> set ys" and "distinct (map Name ys)"
      by auto
    then show ?thesis
      using Cons.prems(3,4) by (simp add: Cons.IH)
  qed
qed

lemma map_of_collect_origin:
  "map_of (collect b xs m) n = Some v \<Longrightarrow>
     map_of m n = Some v
     \<or> (\<exists>x \<in> set xs. \<exists>h. IsDir x = b \<and> Name x = n \<and> hashChild x = Inr h \<and> v = hexX h)"
proof (induction xs arbitrary: m)
  case Nil
  then show ?case by simp
next
  case (Cons y ys)
  let ?m' = "if IsDir y = b
        then (case hashChild y of Inl err \<Rightarrow> m | Inr hash \<Rightarrow> AList.update (Name y) (hexX hash) m)
        else m"
  from Cons.prems have "map_of (collect b ys ?m') n = Some v"
    by simp
  from Cons.IH [OF this] consider
    (old) "map_of ?m' n = Some v"
    | (new) "\<exists>x \<in> set ys. \<exists>h. IsDir x = b \<and> Name x = n \<and> hashChild x = Inr h \<and> v = hexX h"
    by blast
  then show ?case
  proof cases
    case old
    then show ?thesis
      by (auto simp: update_conv split: if_splits sum.splits)
  next
    case new
    then show ?thesis
      by auto
  qed
qed

lemma keys_collect:
  "\<forall>x \<in> set xs. \<exists>h. hashChild x = Inr h \<Longrightarrow>
     fst ` set (collect b xs m) = fst ` set m \<union> Name ` {x \<in> set xs. IsDir x = b}"
proof (induction xs arbitrary: m)
  case Nil
  show ?case by simp
next
  case (Cons y ys)
  from Cons.prems obtain h where h: "hashChild y = Inr h"
    by auto
  from Cons.prems have rest: "\<forall>x \<in> set ys. \<exists>h. hashChild x = Inr h"
    by simp
  show ?case
    using h by (auto simp: Cons.IH [OF rest] dom_update)
qed

lemma collect_entry:
  assumes "(name, hex) \<in> set (collect b contents [])"
  shows "\<exists>x \<in> set contents. \<exists>digest.
           IsDir x = b \<and> Name x = name \<and> hashChild x = Inr digest \<and> hex = hexX digest"
proof -
  have "distinct (map fst (collect b contents []))"
    by (simp add: distinct_collect)
  with assms have "map_of (collect b contents []) name = Some hex"
    by simp
  from map_of_collect_origin [OF this] show ?thesis
    by simp
qed

lemma set_collect:
  assumes "distinct (map Name xs)"
  shows "set (collect b xs [])
           = {(Name x, hexX h) | x h. x \<in> set xs \<and> IsDir x = b \<and> hashChild x = Inr h}"
proof (intro set_eqI iffI)
  fix e
  assume e: "e \<in> set (collect b xs [])"
  obtain name hex where eq: "e = (name, hex)"
    by (cases e)
  from collect_entry [of name hex b xs] e eq show
    "e \<in> {(Name x, hexX h) | x h. x \<in> set xs \<and> IsDir x = b \<and> hashChild x = Inr h}"
    by blast
next
  fix e
  assume "e \<in> {(Name x, hexX h) | x h. x \<in> set xs \<and> IsDir x = b \<and> hashChild x = Inr h}"
  then obtain x h where eq: "e = (Name x, hexX h)" and x: "x \<in> set xs" and k: "IsDir x = b"
    and h: "hashChild x = Inr h"
    by blast
  from map_of_collect_present [OF x assms k h, of "[]"] show "e \<in> set (collect b xs [])"
    unfolding eq by (rule map_of_SomeD)
qed

lemma map_fst_sorted_entries: "map fst (sorted_entries m) = sort (map fst m)"
  by (simp add: sorted_entries_def sortStrings_def rangeKeys_def comp_def)

lemma set_sorted_entries:
  assumes "distinct (map fst m)"
  shows "set (sorted_entries m) = set m"
proof -
  have "index m k = v" if "(k, v) \<in> set m" for k v
    using that assms by (simp add: index_def)
  then show ?thesis
    by (force simp: sorted_entries_def sortStrings_def rangeKeys_def image_iff)
qed

lemma sorted_entries_cong:
  assumes "distinct (map fst m)" and "distinct (map fst m')" and "set m = set m'"
  shows "sorted_entries m = sorted_entries m'"
proof -
  from assms have "map_of m = map_of m'"
    by (simp add: map_of_inject_set)
  then have idx: "index m = index m'"
    by (simp add: index_def fun_eq_iff)
  from assms(1,2) have "distinct m" and "distinct m'"
    by (simp_all add: distinct_map)
  with assms(3) have "mset m = mset m'"
    by (simp add: set_eq_iff_mset_eq_distinct)
  then have "mset (map fst m) = mset (map fst m')"
    by (metis mset_map)
  then have "sortStrings (rangeKeys m) = sortStrings (rangeKeys m')"
    unfolding rangeKeys_def by (rule sortStrings_any_order)
  with idx show ?thesis
    by (simp add: sorted_entries_def)
qed

lemma length_hexX: "length (hexX bs) = 2 * length bs"
  by (induction bs) (simp_all add: hexX_def)

lemma hexdigit_set: "unat n < 16 \<Longrightarrow> hexdigit n \<in> set ''0123456789ABCDEF''"
  unfolding hexdigit_def by (rule nth_mem) simp

lemma unat_high_nibble: "unat (drop_bit 4 (b :: byte)) < 16"
proof -
  have "unat (drop_bit 4 b) = unat b div 16"
    by (simp add: drop_bit_eq_div unat_div_distrib)
  moreover have "unat b < 256"
    using unsigned_less [of b, where ?'a = nat] by simp
  ultimately show ?thesis
    by simp
qed

lemma unat_low_nibble: "unat ((b :: byte) AND 0xF) < 16"
proof -
  have "unat (b AND 0xF) \<le> unat (0xF :: byte)"
    by (rule word_and_le1 [THEN word_le_nat_alt [THEN iffD1]])
  then show ?thesis
    by simp
qed

lemma set_hexX: "set (hexX bs) \<subseteq> set ''0123456789ABCDEF''"
  unfolding hexX_def using hexdigit_set [OF unat_high_nibble] hexdigit_set [OF unat_low_nibble]
  by auto

lemma length_digest_bytes: "length (digest_bytes st) = 32"
  by (cases st rule: digest_bytes.cases) (simp add: be32_def)

lemma length_sha256: "length (sha256 m) = 32"
  by (simp add: sha256_def length_digest_bytes)

lemma length_HashDir:
  assumes "HashDir obj = Inr digest"
  shows "length digest = 32"
proof -
  from HashDir_Inr [OF assms] obtain listing where "digest = sha256 (bytes_of_string listing)"
    by blast
  then show ?thesis
    by (simp add: length_sha256)
qed

lemma length_HashFile: "HashFile obj = Inr digest \<Longrightarrow> length digest = 32"
  by (auto simp: HashFile_def length_sha256 split: sum.splits)

lemma length_hashChild: "hashChild x = Inr digest \<Longrightarrow> length digest = 32"
  by (auto simp: hashChild_def length_HashDir length_HashFile split: if_splits)

lemma lines_of_line:
  "CHR 0x0A \<notin> set l \<Longrightarrow> lines_of (l @ CHR 0x0A # rest) = l # lines_of rest"
  by (induction l) auto

lemma lines_of_lines:
  "\<forall>l \<in> set ls. CHR 0x0A \<notin> set l \<Longrightarrow>
     lines_of (concat (map (\<lambda>l. l @ [CHR 0x0A]) ls) @ rest) = ls @ lines_of rest"
  by (induction ls) (simp_all add: lines_of_line)

lemma entry_line_butlast: "entry_line e = butlast (entry_line e) @ [CHR 0x0A]"
  by (simp add: entry_line_def butlast_append)

lemma newline_not_hex: "CHR 0x0A \<notin> set (hexX bs)"
proof -
  have "CHR 0x0A \<notin> set ''0123456789ABCDEF''"
    by simp
  with set_hexX [of bs] show ?thesis
    by blast
qed

lemma set_entry_line:
  "set (entry_line (name, hex)) = set hex \<union> {CHR '' '', CHR 0x22, CHR 0x0A} \<union> set (escape name)"
  by (auto simp: entry_line_def)

lemma set_escape: "set (escape s) \<subseteq> set s \<union> {CHR 0x5C, CHR 0x22}"
  by (induction s) (auto simp: escape_Nil escape_Cons escape_char_def split: if_splits)

section \<open>Evaluation on concrete trees\<close>

lemmas eval_simps = directory_def regular_file_def HashFile_def pseudoFile_of_def
      rangeKeys_def sortStrings_def index_def escape_Nil escape_Cons escape_char_def

lemma scenario_sub_pseudoFile:
  "HashDir_pseudoFile scenario_sub =
     Inr ([CHR ''='', CHR 0x0A] @ hexX (sha256 (bytes_of_string ''hi''))
          @ [CHR '' '', CHR 0x22] @ ''a.txt'' @ [CHR 0x22, CHR 0x0A])"
  by (simp add: scenario_sub_def eval_simps)

lemma scenario_sub_contents:
  "scenario_sub = FsObj None None True
     (Inr [Dirent ''a.txt'' False (regular_file (bytes_of_string ''hi''))]) (Inl (OSError 21))"
  by (simp add: scenario_sub_def directory_def)

lemma scenario_sub_digest:
  "HashDir scenario_sub =
     Inr (sha256 (bytes_of_string
       ([CHR ''='', CHR 0x0A] @ hexX (sha256 (bytes_of_string ''hi''))
          @ [CHR '' '', CHR 0x22] @ ''a.txt'' @ [CHR 0x22, CHR 0x0A])))"
  by (simp add: scenario_sub_pseudoFile)

lemma scenario_root_pseudoFile:
  "HashDir_pseudoFile scenario_root =
     Inr (hexX (sha256 (bytes_of_string
            ([CHR ''='', CHR 0x0A] @ hexX (sha256 (bytes_of_string ''hi''))
               @ [CHR '' '', CHR 0x22] @ ''a.txt'' @ [CHR 0x22, CHR 0x0A])))
          @ [CHR '' '', CHR 0x22] @ ''sub'' @ [CHR 0x22, CHR 0x0A]
          @ [CHR ''='', CHR 0x0A]
          @ hexX (sha256 []) @ [CHR '' '', CHR 0x22] @ ''empty'' @ [CHR 0x22, CHR 0x0A])"
  by (simp add: scenario_root_def scenario_sub_pseudoFile eval_simps)

lemma control_name_dir_pseudoFile:
  "HashDir_pseudoFile control_name_dir =
     Inr ([CHR ''='', CHR 0x0A]
          @ hexX (sha256 []) @ [CHR '' '', CHR 0x22]
          @ [CHR 0x0D, CHR 0x0A, CHR ''='', CHR 0x0A] @ [CHR 0x22, CHR 0x0A])"
  by (simp add: control_name_dir_def eval_simps)

lemma failing_dir_contents:
  "failing_dir = FsObj None None True
     (Inr [Dirent ''a'' False (regular_file []), Dirent ''b'' False unreadable_file,
           Dirent ''c'' True (regular_file [])]) (Inl (OSError 21))"
  by (simp add: failing_dir_def directory_def)

text \<open>
  Claim C2. In the scenario, the digest of \<^verbatim>\<open>sub\<close> is the SHA-256 of the separator line
  followed by the line of \<^verbatim>\<open>a.txt\<close> with the hexadecimal SHA-256 of \<^verbatim>\<open>hi\<close>; the digest of
  \<^verbatim>\<open>root\<close> is the SHA-256 of the line of \<^verbatim>\<open>sub\<close> with the hexadecimal digest of \<^verbatim>\<open>sub\<close>, the
  separator line, and the line of \<^verbatim>\<open>empty\<close> with the hexadecimal SHA-256 of the empty input;
  the digest of a file is the SHA-256 of the bytes read from it.
\<close>

theorem scenario_digests:
  "HashDir scenario_sub =
     Inr (sha256 (bytes_of_string
       ([CHR ''='', CHR 0x0A] @ hexX (sha256 (bytes_of_string ''hi''))
          @ [CHR '' '', CHR 0x22] @ ''a.txt'' @ [CHR 0x22, CHR 0x0A])))
   \<and> (\<exists>sub. HashDir scenario_sub = Inr sub
        \<and> HashDir scenario_root =
            Inr (sha256 (bytes_of_string
              (hexX sub @ [CHR '' '', CHR 0x22] @ ''sub'' @ [CHR 0x22, CHR 0x0A]
                 @ [CHR ''='', CHR 0x0A]
                 @ hexX (sha256 (bytes_of_string [])) @ [CHR '' '', CHR 0x22] @ ''empty''
                 @ [CHR 0x22, CHR 0x0A]))))
   \<and> HashFile (regular_file (bytes_of_string ''hi'')) = Inr (sha256 (bytes_of_string ''hi''))
   \<and> HashFile (regular_file []) = Inr (sha256 [])
   \<and> HashFile (FsObj open_err stat_err isDir readdir (Inr contents)) = Inr (sha256 contents)"
proof (intro conjI)
  show sub: "HashDir scenario_sub =
     Inr (sha256 (bytes_of_string
       ([CHR ''='', CHR 0x0A] @ hexX (sha256 (bytes_of_string ''hi''))
          @ [CHR '' '', CHR 0x22] @ ''a.txt'' @ [CHR 0x22, CHR 0x0A])))"
    by (simp add: scenario_sub_pseudoFile)
  show "\<exists>sub. HashDir scenario_sub = Inr sub
        \<and> HashDir scenario_root =
            Inr (sha256 (bytes_of_string
              (hexX sub @ [CHR '' '', CHR 0x22] @ ''sub'' @ [CHR 0x22, CHR 0x0A]
                 @ [CHR ''='', CHR 0x0A]
                 @ hexX (sha256 (bytes_of_string [])) @ [CHR '' '', CHR 0x22] @ ''empty''
                 @ [CHR 0x22, CHR 0x0A])))"
    by (simp add: scenario_root_def scenario_sub_pseudoFile eval_simps bytes_of_string_def)
  show "HashFile (regular_file (bytes_of_string ''hi'')) = Inr (sha256 (bytes_of_string ''hi''))"
    by (simp add: regular_file_def HashFile_def)
  show "HashFile (regular_file []) = Inr (sha256 [])"
    by (simp add: regular_file_def HashFile_def)
  show "HashFile (FsObj open_err stat_err isDir readdir (Inr contents)) = Inr (sha256 contents)"
    by (simp add: HashFile_def)
qed

text \<open>
  Claim C9. A directory that is listed and has no entry has the pseudo-file made of the
  separator line alone, whatever else the object holds, so its digest is the SHA-256 of these
  two bytes: the value that the package comment shows for its directory \<^verbatim>\<open>empty\<close>.
\<close>

theorem empty_directory:
  "HashDir_pseudoFile (FsObj None None True (Inr []) readFile) = Inr [CHR ''='', CHR 0x0A]
   \<and> HashDir (FsObj None None True (Inr []) readFile)
       = Inr (sha256 (bytes_of_string [CHR ''='', CHR 0x0A]))
   \<and> hexX (sha256 (bytes_of_string [CHR ''='', CHR 0x0A]))
       = ''0CE63AFC1E92EE82744300A778E523B9F42A53FE99201BD39FB8E2DE82965297''"
proof (intro conjI)
  show "HashDir_pseudoFile (FsObj None None True (Inr []) readFile) = Inr [CHR ''='', CHR 0x0A]"
    by (simp add: pseudoFile_of_def rangeKeys_def sortStrings_def)
  then show "HashDir (FsObj None None True (Inr []) readFile)
       = Inr (sha256 (bytes_of_string [CHR ''='', CHR 0x0A]))"
    by simp
  show "hexX (sha256 (bytes_of_string [CHR ''='', CHR 0x0A]))
       = ''0CE63AFC1E92EE82744300A778E523B9F42A53FE99201BD39FB8E2DE82965297''"
    by code_simp
qed

section \<open>Errors\<close>

text \<open>
  Claim C7 says that \<open>HashDir\<close> on a regular file returns the error "not a directory". For a
  regular file that cannot be opened, the source returns the error of \<^verbatim>\<open>os.Open\<close>, before it
  looks at the kind of the object.
\<close>

theorem not_a_directory_counterexample:
  "\<not> info_IsDir unreadable_file
   \<and> HashDir unreadable_file = Inl (OSError 13)
   \<and> HashDir unreadable_file \<noteq> Inl (ErrorsNew ''not a directory'')"
  by (simp add: unreadable_file_def)

text \<open>
  Claim C7 as amended. \<open>HashDir\<close> on an object that is not a directory returns an error and
  never a digest: the error of \<^verbatim>\<open>os.Open\<close> when the open fails, else the error of
  \<^verbatim>\<open>Stat\<close> when that fails, else the error "not a directory". The object is never hashed as a
  file.
\<close>

theorem not_a_directory:
  assumes "\<not> info_IsDir obj"
  shows "HashDir obj =
           Inl (case os_Open obj of
                  Some err \<Rightarrow> err
                | None \<Rightarrow> (case file_Stat obj of
                     Some err \<Rightarrow> err
                   | None \<Rightarrow> ErrorsNew ''not a directory''))"
  using assms by (cases obj) (simp split: option.splits)

theorem not_a_directory_witness:
  "\<not> info_IsDir (regular_file (bytes_of_string ''hi''))
   \<and> HashDir (regular_file (bytes_of_string ''hi'')) = Inl (ErrorsNew ''not a directory'')
   \<and> HashFile (regular_file (bytes_of_string ''hi'')) = Inr (sha256 (bytes_of_string ''hi''))"
  using not_a_directory [of "regular_file (bytes_of_string ''hi'')"]
  by (simp add: regular_file_def HashFile_def)

text \<open>
  Claim C8. If hashing a child of a directory fails, the loop stops at the first child (in the
  order of the enumeration) that fails, and \<open>HashDir\<close> returns the error of that child as it is,
  and no digest.
\<close>

theorem errors_short_circuit:
  assumes "x \<in> set contents" and "hashChild x = Inl e"
  shows "\<exists>pre y post err.
           contents = pre @ y # post
         \<and> (\<forall>z \<in> set pre. \<exists>h. hashChild z = Inr h)
         \<and> hashChild y = Inl err
         \<and> (\<forall>dirs files. hashContents contents dirs files = Inl err)
         \<and> HashDir_pseudoFile (FsObj None None True (Inr contents) readFile) = Inl err
         \<and> HashDir (FsObj None None True (Inr contents) readFile) = Inl err"
proof -
  from first_failing_child [OF assms] obtain pre y post err
    where c: "contents = pre @ y # post"
      and pre: "\<forall>z \<in> set pre. \<exists>h. hashChild z = Inr h"
      and y: "hashChild y = Inl err"
    by blast
  have loop: "hashContents contents dirs files = Inl err" for dirs files
    unfolding c using pre y by (rule hashContents_first_error)
  then have "HashDir_pseudoFile (FsObj None None True (Inr contents) readFile) = Inl err"
    by simp
  moreover from this have "HashDir (FsObj None None True (Inr contents) readFile) = Inl err"
    by simp
  ultimately show ?thesis
    using c pre y loop by blast
qed

text \<open>
  Claim C8 at a concrete directory: the first entry is hashed, the second cannot be read and
  the third is not the directory it is listed as; the error returned is the one of the second
  entry.
\<close>

theorem errors_short_circuit_witness:
  "hashChild (Dirent ''a'' False (regular_file [])) = Inr (sha256 [])
   \<and> hashChild (Dirent ''b'' False unreadable_file) = Inl (OSError 13)
   \<and> hashChild (Dirent ''c'' True (regular_file [])) = Inl (ErrorsNew ''not a directory'')
   \<and> HashDir failing_dir = Inl (OSError 13)"
proof -
  have b: "hashChild (Dirent ''b'' False unreadable_file) = Inl (OSError 13)"
    by (simp add: hashChild_def HashFile_def unreadable_file_def)
  have c: "hashChild (Dirent ''c'' True (regular_file [])) = Inl (ErrorsNew ''not a directory'')"
    by (simp add: hashChild_def regular_file_def)
  have a: "hashChild (Dirent ''a'' False (regular_file [])) = Inr (sha256 [])"
    by (simp add: hashChild_def HashFile_def regular_file_def)
  have mem: "Dirent ''b'' False unreadable_file
      \<in> set [Dirent ''a'' False (regular_file []), Dirent ''b'' False unreadable_file,
              Dirent ''c'' True (regular_file [])]"
    by simp
  from errors_short_circuit [OF mem b, of "Inl (OSError 21)", folded failing_dir_contents]
  obtain err where "HashDir failing_dir = Inl err"
    and "HashDir_pseudoFile failing_dir = Inl err"
    by (elim exE conjE) (rule that)
  moreover have "HashDir_pseudoFile failing_dir = Inl (OSError 13)"
    by (simp add: failing_dir_contents HashFile_def regular_file_def unreadable_file_def)
  ultimately have "HashDir failing_dir = Inl (OSError 13)"
    by simp
  with a b c show ?thesis
    by simp
qed

section \<open>The form of the pseudo-file\<close>

text \<open>
  Claim C3 says that the pseudo-file has no carriage return and exactly one line that is the
  equals sign alone. The escaping changes the backslash and the double quote and no other
  byte, so a carriage return and a newline of a name stand in the pseudo-file as they are: for
  a file whose name is a carriage return, a newline, an equals sign and a newline, the
  pseudo-file holds a carriage return, and two of its four lines are the equals sign alone.
\<close>

theorem pseudoFile_shape_counterexample:
  "HashDir_pseudoFile control_name_dir =
     Inr ([CHR ''='', CHR 0x0A]
          @ hexX (sha256 []) @ [CHR '' '', CHR 0x22]
          @ [CHR 0x0D, CHR 0x0A, CHR ''='', CHR 0x0A] @ [CHR 0x22, CHR 0x0A])
   \<and> CHR 0x0D \<in> set ([CHR ''='', CHR 0x0A]
          @ hexX (sha256 []) @ [CHR '' '', CHR 0x22]
          @ [CHR 0x0D, CHR 0x0A, CHR ''='', CHR 0x0A] @ [CHR 0x22, CHR 0x0A])
   \<and> lines_of ([CHR ''='', CHR 0x0A]
          @ hexX (sha256 []) @ [CHR '' '', CHR 0x22]
          @ [CHR 0x0D, CHR 0x0A, CHR ''='', CHR 0x0A] @ [CHR 0x22, CHR 0x0A])
       = [''='', hexX (sha256 []) @ [CHR '' '', CHR 0x22, CHR 0x0D], ''='', [CHR 0x22]]"
proof (intro conjI)
  show "HashDir_pseudoFile control_name_dir =
     Inr ([CHR ''='', CHR 0x0A]
          @ hexX (sha256 []) @ [CHR '' '', CHR 0x22]
          @ [CHR 0x0D, CHR 0x0A, CHR ''='', CHR 0x0A] @ [CHR 0x22, CHR 0x0A])"
    by (rule control_name_dir_pseudoFile)
  show "CHR 0x0D \<in> set ([CHR ''='', CHR 0x0A]
          @ hexX (sha256 []) @ [CHR '' '', CHR 0x22]
          @ [CHR 0x0D, CHR 0x0A, CHR ''='', CHR 0x0A] @ [CHR 0x22, CHR 0x0A])"
    by simp
  have "CHR 0x0A \<notin> set (hexX (sha256 []) @ [CHR '' '', CHR 0x22, CHR 0x0D])"
    by (simp add: newline_not_hex)
  from lines_of_line [OF this, of "[CHR ''='', CHR 0x0A, CHR 0x22, CHR 0x0A]"]
  show "lines_of ([CHR ''='', CHR 0x0A]
          @ hexX (sha256 []) @ [CHR '' '', CHR 0x22]
          @ [CHR 0x0D, CHR 0x0A, CHR ''='', CHR 0x0A] @ [CHR 0x22, CHR 0x0A])
       = [''='', hexX (sha256 []) @ [CHR '' '', CHR 0x22, CHR 0x0D], ''='', [CHR 0x22]]"
    by simp
qed

text \<open>
  Claim C3 as amended. Whenever \<open>HashDir\<close> builds a pseudo-file for a directory, it is: one
  line for each entry that is a directory, the separator (an equals sign and a newline)
  written exactly once, one line for each other entry, and nothing more. A line is the digest
  of the child in 64 upper-case hexadecimal digits, a space, a double quote, the escaped name,
  a double quote and one newline; every name has one line in its section. With no directory
  among the entries the pseudo-file starts with the separator; with no file it ends with it.
  The format adds no carriage return and no further line break: a carriage return can only
  come from a name, and when no name holds a newline the lines of the pseudo-file are the
  lines of the entries and the equals sign alone, once. The order of the lines inside a
  section is not part of this statement.
\<close>

theorem pseudoFile_shape:
  assumes "HashDir_pseudoFile obj = Inr listing"
  shows "\<exists>contents dirs files.
      file_Readdir obj = Inr contents
    \<and> listing = concat (map entry_line dirs) @ [CHR ''='', CHR 0x0A] @ concat (map entry_line files)
    \<and> distinct (map fst dirs) \<and> distinct (map fst files)
    \<and> fst ` set dirs = Name ` {x \<in> set contents. IsDir x}
    \<and> fst ` set files = Name ` {x \<in> set contents. \<not> IsDir x}
    \<and> (\<forall>(name, hex) \<in> set dirs. \<exists>x \<in> set contents. \<exists>digest.
          IsDir x \<and> Name x = name \<and> HashDir (at_path x) = Inr digest \<and> hex = hexX digest)
    \<and> (\<forall>(name, hex) \<in> set files. \<exists>x \<in> set contents. \<exists>digest.
          \<not> IsDir x \<and> Name x = name \<and> HashFile (at_path x) = Inr digest \<and> hex = hexX digest)
    \<and> (\<forall>(name, hex) \<in> set (dirs @ files).
          length hex = 64 \<and> set hex \<subseteq> set ''0123456789ABCDEF'')
    \<and> ((\<forall>x \<in> set contents. \<not> IsDir x) \<longrightarrow> take 2 listing = [CHR ''='', CHR 0x0A])
    \<and> ((\<forall>x \<in> set contents. IsDir x)
          \<longrightarrow> drop (length listing - 2) listing = [CHR ''='', CHR 0x0A])
    \<and> (CHR 0x0D \<in> set listing \<longrightarrow> (\<exists>x \<in> set contents. CHR 0x0D \<in> set (Name x)))
    \<and> ((\<forall>x \<in> set contents. CHR 0x0A \<notin> set (Name x)) \<longrightarrow>
          lines_of listing
            = map (butlast \<circ> entry_line) dirs @ [''=''] @ map (butlast \<circ> entry_line) files
          \<and> count_list (lines_of listing) ''='' = 1)"
proof -
  from assms obtain contents where rd: "file_Readdir obj = Inr contents"
    and ok: "\<forall>x \<in> set contents. \<exists>h. hashChild x = Inr h"
    and l: "listing = pseudoFile_of (collect True contents []) (collect False contents [])"
    by (rule HashDir_pseudoFile_success)
  define dirs where "dirs = sorted_entries (collect True contents [])"
  define files where "files = sorted_entries (collect False contents [])"
  have dd: "distinct (map fst (collect True contents []))"
    and df: "distinct (map fst (collect False contents []))"
    by (simp_all add: distinct_collect)
  have set_dirs: "set dirs = set (collect True contents [])"
    and set_files: "set files = set (collect False contents [])"
    by (simp_all add: dirs_def files_def set_sorted_entries dd df)
  have shape: "listing = concat (map entry_line dirs) @ [CHR ''='', CHR 0x0A]
                 @ concat (map entry_line files)"
    by (simp add: l pseudoFile_of_sections dirs_def files_def)
  have distinct_dirs: "distinct (map fst dirs)" and distinct_files: "distinct (map fst files)"
    using dd df by (simp_all add: dirs_def files_def map_fst_sorted_entries)
  have keys_dirs: "fst ` set dirs = Name ` {x \<in> set contents. IsDir x}"
    using keys_collect [OF ok, of True "[]"] by (simp add: set_dirs)
  have keys_files: "fst ` set files = Name ` {x \<in> set contents. \<not> IsDir x}"
    using keys_collect [OF ok, of False "[]"] by (simp add: set_files)
  have from_dirs: "\<forall>(name, hex) \<in> set dirs. \<exists>x \<in> set contents. \<exists>digest.
          IsDir x \<and> Name x = name \<and> HashDir (at_path x) = Inr digest \<and> hex = hexX digest"
  proof (clarify)
    fix name hex
    assume "(name, hex) \<in> set dirs"
    then have "(name, hex) \<in> set (collect True contents [])"
      by (simp add: set_dirs)
    from collect_entry [OF this] obtain x digest where "x \<in> set contents" and "IsDir x"
      and "Name x = name" and "hashChild x = Inr digest" and "hex = hexX digest"
      by auto
    then show "\<exists>x \<in> set contents. \<exists>digest.
          IsDir x \<and> Name x = name \<and> HashDir (at_path x) = Inr digest \<and> hex = hexX digest"
      by (auto simp: hashChild_def)
  qed
  have from_files: "\<forall>(name, hex) \<in> set files. \<exists>x \<in> set contents. \<exists>digest.
          \<not> IsDir x \<and> Name x = name \<and> HashFile (at_path x) = Inr digest \<and> hex = hexX digest"
  proof (clarify)
    fix name hex
    assume "(name, hex) \<in> set files"
    then have "(name, hex) \<in> set (collect False contents [])"
      by (simp add: set_files)
    from collect_entry [OF this] obtain x digest where "x \<in> set contents" and "\<not> IsDir x"
      and "Name x = name" and "hashChild x = Inr digest" and "hex = hexX digest"
      by auto
    then show "\<exists>x \<in> set contents. \<exists>digest.
          \<not> IsDir x \<and> Name x = name \<and> HashFile (at_path x) = Inr digest \<and> hex = hexX digest"
      by (auto simp: hashChild_def)
  qed
  have hex_form: "length hex = 64 \<and> set hex \<subseteq> set ''0123456789ABCDEF''"
    if "(name, hex) \<in> set (dirs @ files)" for name hex
  proof -
    from that have "(name, hex) \<in> set (collect True contents [])
                    \<or> (name, hex) \<in> set (collect False contents [])"
      by (simp add: set_dirs set_files)
    then obtain x digest where "hashChild x = Inr digest" and hex: "hex = hexX digest"
      using collect_entry by blast
    then have "length digest = 32"
      by (simp add: length_hashChild)
    with hex have "length hex = 64"
      by (simp add: length_hexX)
    moreover from hex have "set hex \<subseteq> set ''0123456789ABCDEF''"
      using set_hexX by simp
    ultimately show ?thesis ..
  qed
  have starts: "(\<forall>x \<in> set contents. \<not> IsDir x) \<longrightarrow> take 2 listing = [CHR ''='', CHR 0x0A]"
  proof
    assume "\<forall>x \<in> set contents. \<not> IsDir x"
    with keys_dirs have "fst ` set dirs = {}"
      by simp
    then have "dirs = []"
      by simp
    then show "take 2 listing = [CHR ''='', CHR 0x0A]"
      by (simp add: shape)
  qed
  have ends: "(\<forall>x \<in> set contents. IsDir x)
          \<longrightarrow> drop (length listing - 2) listing = [CHR ''='', CHR 0x0A]"
  proof
    assume "\<forall>x \<in> set contents. IsDir x"
    with keys_files have "fst ` set files = {}"
      by simp
    then have "files = []"
      by simp
    then show "drop (length listing - 2) listing = [CHR ''='', CHR 0x0A]"
      by (simp add: shape)
  qed
  have cr: "CHR 0x0D \<in> set listing \<longrightarrow> (\<exists>x \<in> set contents. CHR 0x0D \<in> set (Name x))"
  proof
    assume "CHR 0x0D \<in> set listing"
    moreover have "set listing
        = (\<Union>e \<in> set (dirs @ files). set (entry_line e)) \<union> {CHR ''='', CHR 0x0A}"
      unfolding shape by auto
    ultimately obtain e where e: "e \<in> set (dirs @ files)" and c: "CHR 0x0D \<in> set (entry_line e)"
      by auto
    obtain name hex where eq: "e = (name, hex)"
      by (cases e)
    have "CHR 0x0D \<notin> set ''0123456789ABCDEF''"
      by simp
    with hex_form [of name hex] e eq have "CHR 0x0D \<notin> set hex"
      by blast
    with c eq have "CHR 0x0D \<in> set (escape name)"
      by (simp add: set_entry_line)
    with set_escape [of name] have "CHR 0x0D \<in> set name"
      by auto
    moreover from e eq have "name \<in> fst ` set dirs \<union> fst ` set files"
      by force
    then have "name \<in> Name ` set contents"
      unfolding keys_dirs keys_files by blast
    ultimately show "\<exists>x \<in> set contents. CHR 0x0D \<in> set (Name x)"
      by blast
  qed
  have hex_all: "\<forall>(name, hex) \<in> set (dirs @ files).
          length hex = 64 \<and> set hex \<subseteq> set ''0123456789ABCDEF''"
    using hex_form by blast
  have one_separator: "(\<forall>x \<in> set contents. CHR 0x0A \<notin> set (Name x)) \<longrightarrow>
          lines_of listing
            = map (butlast \<circ> entry_line) dirs @ [''=''] @ map (butlast \<circ> entry_line) files
          \<and> count_list (lines_of listing) ''='' = 1"
  proof
    assume names: "\<forall>x \<in> set contents. CHR 0x0A \<notin> set (Name x)"
    have text_of: "butlast (entry_line (name, hex))
                     = hex @ [CHR '' '', CHR 0x22] @ escape name @ [CHR 0x22]" for name hex
      by (simp add: entry_line_def butlast_append)
    have no_newline: "CHR 0x0A \<notin> set (butlast (entry_line e))"
      and not_separator: "butlast (entry_line e) \<noteq> ''=''"
      if e: "e \<in> set (dirs @ files)" for e
    proof -
      obtain name hex where eq: "e = (name, hex)"
        by (cases e)
      have "CHR 0x0A \<notin> set ''0123456789ABCDEF''"
        by simp
      with hex_form [of name hex] e eq have hex: "CHR 0x0A \<notin> set hex"
        by blast
      from e eq have "name \<in> fst ` set dirs \<union> fst ` set files"
        by force
      then have "name \<in> Name ` set contents"
        unfolding keys_dirs keys_files by blast
      with names have "CHR 0x0A \<notin> set name"
        by blast
      with set_escape [of name] have "CHR 0x0A \<notin> set (escape name)"
        by auto
      with hex show "CHR 0x0A \<notin> set (butlast (entry_line e))"
        by (simp add: eq text_of)
      have "length (butlast (entry_line e)) \<noteq> length ''=''"
        by (simp add: eq text_of)
      then show "butlast (entry_line e) \<noteq> ''=''"
        by (rule contrapos_nn) (simp only:)
    qed
    have as_lines: "concat (map entry_line es)
        = concat (map (\<lambda>l. l @ [CHR 0x0A]) (map (butlast \<circ> entry_line) es))" for es
      by (induction es) (simp_all add: entry_line_butlast [symmetric])
    have d: "\<forall>l \<in> set (map (butlast \<circ> entry_line) dirs). CHR 0x0A \<notin> set l"
      and f: "\<forall>l \<in> set (map (butlast \<circ> entry_line) files). CHR 0x0A \<notin> set l"
      using no_newline by simp_all
    have "lines_of listing
            = map (butlast \<circ> entry_line) dirs
              @ lines_of (''='' @ CHR 0x0A # concat (map entry_line files))"
      unfolding shape as_lines [of dirs] using lines_of_lines [OF d] by simp
    also have "lines_of (''='' @ CHR 0x0A # concat (map entry_line files))
            = ''='' # lines_of (concat (map entry_line files) @ [])"
      by (subst lines_of_line) simp_all
    also have "lines_of (concat (map entry_line files) @ [])
            = map (butlast \<circ> entry_line) files"
      unfolding as_lines [of files] using lines_of_lines [OF f, of "[]"] by simp
    finally have lines: "lines_of listing
            = map (butlast \<circ> entry_line) dirs @ [''='']
              @ map (butlast \<circ> entry_line) files"
      by simp
    have "''='' \<notin> set (map (butlast \<circ> entry_line) es)"
      if sub: "set es \<subseteq> set (dirs @ files)" for es
    proof
      assume "''='' \<in> set (map (butlast \<circ> entry_line) es)"
      then obtain e where "e \<in> set es" and "''='' = (butlast \<circ> entry_line) e"
        unfolding set_map by (rule imageE)
      moreover from \<open>e \<in> set es\<close> sub have "e \<in> set (dirs @ files)"
        by blast
      then have "butlast (entry_line e) \<noteq> ''=''"
        by (rule not_separator)
      ultimately show False
        by simp
    qed
    from this [of dirs] this [of files]
    have "''='' \<notin> set (map (butlast \<circ> entry_line) dirs)"
      and "''='' \<notin> set (map (butlast \<circ> entry_line) files)"
      by simp_all
    then have "count_list (map (butlast \<circ> entry_line) dirs) ''='' = 0"
      and "count_list (map (butlast \<circ> entry_line) files) ''='' = 0"
      by (simp_all only: count_list_0_iff not_False_eq_True)
    then have "count_list (lines_of listing) ''='' = 1"
      unfolding lines by simp
    with lines show "lines_of listing
            = map (butlast \<circ> entry_line) dirs @ [''=''] @ map (butlast \<circ> entry_line) files
          \<and> count_list (lines_of listing) ''='' = 1"
      by simp
  qed
  show ?thesis
    apply (rule exI [of _ contents])
    apply (rule exI [of _ dirs])
    apply (rule exI [of _ files])
    apply (intro conjI)
    apply (fact rd shape distinct_dirs distinct_files keys_dirs keys_files from_dirs
        from_files hex_all starts ends cr one_separator)+
    done
qed

text \<open>
  The form of the pseudo-file of \<^verbatim>\<open>root\<close> in the scenario (claim C3 as amended, at a concrete
  tree).
\<close>

theorem pseudoFile_shape_witness:
  "\<exists>listing contents dirs files.
      HashDir_pseudoFile scenario_root = Inr listing
    \<and> file_Readdir scenario_root = Inr contents
    \<and> listing = concat (map entry_line dirs) @ [CHR ''='', CHR 0x0A] @ concat (map entry_line files)
    \<and> distinct (map fst dirs) \<and> distinct (map fst files)
    \<and> fst ` set dirs = Name ` {x \<in> set contents. IsDir x}
    \<and> fst ` set files = Name ` {x \<in> set contents. \<not> IsDir x}"
proof -
  from pseudoFile_shape [OF scenario_root_pseudoFile] obtain contents dirs files
    where "file_Readdir scenario_root = Inr contents"
      and "hexX (sha256 (bytes_of_string
            ([CHR ''='', CHR 0x0A] @ hexX (sha256 (bytes_of_string ''hi''))
               @ [CHR '' '', CHR 0x22] @ ''a.txt'' @ [CHR 0x22, CHR 0x0A])))
          @ [CHR '' '', CHR 0x22] @ ''sub'' @ [CHR 0x22, CHR 0x0A]
          @ [CHR ''='', CHR 0x0A]
          @ hexX (sha256 []) @ [CHR '' '', CHR 0x22] @ ''empty'' @ [CHR 0x22, CHR 0x0A]
        = concat (map entry_line dirs) @ [CHR ''='', CHR 0x0A] @ concat (map entry_line files)"
      and "distinct (map fst dirs)" and "distinct (map fst files)"
      and "fst ` set dirs = Name ` {x \<in> set contents. IsDir x}"
      and "fst ` set files = Name ` {x \<in> set contents. \<not> IsDir x}"
    by (elim exE conjE) (rule that)
  with scenario_root_pseudoFile show ?thesis
    by (intro exI conjI)
qed

text \<open>
  Claim C1 says that the lines of a section are ordered by the bytes of the escaped names. The
  source sorts the names before it escapes them. For the files \<^verbatim>\<open>A\<close> and \<^verbatim>\<open>"\<close> the pseudo-file
  has the line of \<^verbatim>\<open>"\<close> first, since the double quote (\<open>0x22\<close>) is below \<^verbatim>\<open>A\<close> (\<open>0x41\<close>), while
  the escaped name \<^verbatim>\<open>\"\<close> starts with a backslash (\<open>0x5C\<close>) and is above \<^verbatim>\<open>A\<close>: the escaped names
  are not in order.
\<close>

theorem order_of_raw_names:
  "HashDir_pseudoFile quote_dir =
     Inr ([CHR ''='', CHR 0x0A]
          @ hexX (sha256 []) @ [CHR '' '', CHR 0x22] @ [CHR 0x5C, CHR 0x22] @ [CHR 0x22, CHR 0x0A]
          @ hexX (sha256 []) @ [CHR '' '', CHR 0x22] @ ''A'' @ [CHR 0x22, CHR 0x0A])
   \<and> escape [CHR 0x22] = [CHR 0x5C, CHR 0x22]
   \<and> escape ''A'' = ''A''
   \<and> escape ''A'' < escape [CHR 0x22]
   \<and> \<not> sorted [escape [CHR 0x22], escape ''A'']"
  by (simp add: quote_dir_def eval_simps)

text \<open>
  Claim C10. The loop knows two kinds of entries. When \<open>HashDir\<close> returns a digest for a
  directory, every entry whose \<^verbatim>\<open>IsDir()\<close> is false has been hashed by \<open>HashFile\<close> (so a failure
  of \<open>HashFile\<close> on it makes \<open>HashDir\<close> fail), its line stands in the second section with the
  digest of \<open>HashFile\<close>, the first section has exactly the names of the entries whose
  \<^verbatim>\<open>IsDir()\<close> is true and the second exactly the names of all the others.
\<close>

theorem non_directory_entries_are_files:
  assumes "HashDir obj = Inr digest" and "file_Readdir obj = Inr contents"
    and "x \<in> set contents" and "\<not> IsDir x" and "distinct (map Name contents)"
  shows "\<exists>fileDigest listing dirs files.
            HashFile (at_path x) = Inr fileDigest
          \<and> HashDir_pseudoFile obj = Inr listing
          \<and> digest = sha256 (bytes_of_string listing)
          \<and> listing = concat (map entry_line dirs) @ [CHR ''='', CHR 0x0A]
                        @ concat (map entry_line files)
          \<and> fst ` set dirs = Name ` {y \<in> set contents. IsDir y}
          \<and> fst ` set files = Name ` {y \<in> set contents. \<not> IsDir y}
          \<and> (Name x, hexX fileDigest) \<in> set files"
proof -
  from HashDir_Inr [OF assms(1)] obtain listing
    where l: "HashDir_pseudoFile obj = Inr listing"
      and d: "digest = sha256 (bytes_of_string listing)"
    by blast
  from l assms(2) have ok: "\<forall>x \<in> set contents. \<exists>h. hashChild x = Inr h"
    and p: "listing = pseudoFile_of (collect True contents []) (collect False contents [])"
    by (auto elim!: HashDir_pseudoFile_success)
  from ok assms(3) obtain fileDigest where h: "hashChild x = Inr fileDigest"
    by blast
  with assms(4) have hf: "HashFile (at_path x) = Inr fileDigest"
    by (simp add: hashChild_def)
  define dirs where "dirs = sorted_entries (collect True contents [])"
  define files where "files = sorted_entries (collect False contents [])"
  have set_dirs: "set dirs = set (collect True contents [])"
    and set_files: "set files = set (collect False contents [])"
    by (simp_all add: dirs_def files_def set_sorted_entries distinct_collect)
  have shape: "listing = concat (map entry_line dirs) @ [CHR ''='', CHR 0x0A]
                 @ concat (map entry_line files)"
    by (simp add: p pseudoFile_of_sections dirs_def files_def)
  have keys_dirs: "fst ` set dirs = Name ` {y \<in> set contents. IsDir y}"
    using keys_collect [OF ok, of True "[]"] by (simp add: set_dirs)
  have keys_files: "fst ` set files = Name ` {y \<in> set contents. \<not> IsDir y}"
    using keys_collect [OF ok, of False "[]"] by (simp add: set_files)
  from assms(4) have "IsDir x = False"
    by simp
  from map_of_collect_present [OF assms(3) assms(5) this h, of "[]"]
  have "(Name x, hexX fileDigest) \<in> set (collect False contents [])"
    by (rule map_of_SomeD)
  then have line: "(Name x, hexX fileDigest) \<in> set files"
    by (simp add: set_files)
  show ?thesis
    apply (rule exI [of _ fileDigest])
    apply (rule exI [of _ listing])
    apply (rule exI [of _ dirs])
    apply (rule exI [of _ files])
    apply (intro conjI)
    apply (fact hf l d shape keys_dirs keys_files line)+
    done
qed

text \<open>Claim C10 at the directory \<^verbatim>\<open>sub\<close> of the scenario and its file \<^verbatim>\<open>a.txt\<close>.\<close>

theorem non_directory_entries_are_files_witness:
  "\<exists>fileDigest listing dirs files.
      HashFile (regular_file (bytes_of_string ''hi'')) = Inr fileDigest
    \<and> HashDir_pseudoFile scenario_sub = Inr listing
    \<and> listing = concat (map entry_line dirs) @ [CHR ''='', CHR 0x0A]
                  @ concat (map entry_line files)
    \<and> (''a.txt'', hexX fileDigest) \<in> set files"
proof -
  have rd: "file_Readdir scenario_sub
      = Inr [Dirent ''a.txt'' False (regular_file (bytes_of_string ''hi''))]"
    by (simp add: scenario_sub_contents)
  have mem: "Dirent ''a.txt'' False (regular_file (bytes_of_string ''hi''))
      \<in> set [Dirent ''a.txt'' False (regular_file (bytes_of_string ''hi''))]"
    by simp
  have kind: "\<not> IsDir (Dirent ''a.txt'' False (regular_file (bytes_of_string ''hi'')))"
    by simp
  have names: "distinct (map Name [Dirent ''a.txt'' False (regular_file (bytes_of_string ''hi''))])"
    by simp
  from non_directory_entries_are_files [OF scenario_sub_digest rd mem kind names]
  obtain fileDigest listing dirs files
    where "HashFile (at_path (Dirent ''a.txt'' False (regular_file (bytes_of_string ''hi''))))
             = Inr fileDigest"
      and "HashDir_pseudoFile scenario_sub = Inr listing"
      and "listing = concat (map entry_line dirs) @ [CHR ''='', CHR 0x0A]
                  @ concat (map entry_line files)"
      and "(Name (Dirent ''a.txt'' False (regular_file (bytes_of_string ''hi''))), hexX fileDigest)
             \<in> set files"
    by (elim exE conjE) (rule that)
  then have "HashFile (regular_file (bytes_of_string ''hi'')) = Inr fileDigest
    \<and> HashDir_pseudoFile scenario_sub = Inr listing
    \<and> listing = concat (map entry_line dirs) @ [CHR ''='', CHR 0x0A]
                  @ concat (map entry_line files)
    \<and> (''a.txt'', hexX fileDigest) \<in> set files"
    by simp
  then show ?thesis
    by (intro exI)
qed

text \<open>
  An entry that is listed as no directory and is one behind the name (a symbolic link to a
  directory) is read as a file, and the read fails.
\<close>

lemma link_to_directory_read_as_file:
  "HashDir (directory [Dirent ''link'' False (directory [])]) = Inl (OSError 21)"
  by (simp add: directory_def HashFile_def)

section \<open>The order of the enumeration\<close>

lemma loop_result_permuted:
  assumes "mset contents' = mset contents" and "distinct (map Name contents)"
  shows "digest_of (case hashContents contents [] [] of
                      Inl err \<Rightarrow> Inl err
                    | Inr (dirs, files) \<Rightarrow> Inr (pseudoFile_of dirs files))
       = digest_of (case hashContents contents' [] [] of
                      Inl err \<Rightarrow> Inl err
                    | Inr (dirs, files) \<Rightarrow> Inr (pseudoFile_of dirs files))"
proof -
  from assms(1) have sets: "set contents' = set contents"
    by (rule mset_eq_setD)
  from assms(1) have "mset (map Name contents') = mset (map Name contents)"
    by simp
  with assms(2) have d': "distinct (map Name contents')"
    by (metis mset_eq_imp_distinct_iff)
  show ?thesis
  proof (cases "\<forall>x \<in> set contents. \<exists>h. hashChild x = Inr h")
    case True
    with sets have ok': "\<forall>x \<in> set contents'. \<exists>h. hashChild x = Inr h"
      by simp
    have "set (collect b contents []) = set (collect b contents' [])" for b
      by (simp add: set_collect assms(2) d' sets)
    then have "sorted_entries (collect b contents []) = sorted_entries (collect b contents' [])"
      for b
      by (intro sorted_entries_cong distinct_collect) simp_all
    then have "pseudoFile_of (collect True contents []) (collect False contents [])
             = pseudoFile_of (collect True contents' []) (collect False contents' [])"
      by (simp add: pseudoFile_of_sections)
    then show ?thesis
      by (simp add: hashContents_ok [OF True] hashContents_ok [OF ok'])
  next
    case False
    with sets have bad': "\<not> (\<forall>x \<in> set contents'. \<exists>h. hashChild x = Inr h)"
      by simp
    from hashContents_failure [OF False] obtain e1
      where "hashContents contents [] [] = Inl e1"
      by blast
    moreover from hashContents_failure [OF bad'] obtain e2
      where "hashContents contents' [] [] = Inl e2"
      by blast
    ultimately show ?thesis
      by (simp add: digest_of_def)
  qed
qed

text \<open>
  Claim C5. The result is a function of the tree, and the order of the enumeration does not
  change it: for two enumerations of the same entries (with the names of a directory all
  different, as a file system has them) both runs return the same pseudo-file and the same
  digest, or both return none. Inside a run, the order in which Go walks the two maps does not
  matter either, since the keys are sorted.
\<close>

theorem enumeration_order_irrelevant:
  assumes "mset contents' = mset contents" and "distinct (map Name contents)"
  shows "digest_of (HashDir_pseudoFile (FsObj open_err stat_err isDir (Inr contents) readFile))
           = digest_of (HashDir_pseudoFile (FsObj open_err stat_err isDir (Inr contents') readFile))
       \<and> digest_of (HashDir (FsObj open_err stat_err isDir (Inr contents) readFile))
           = digest_of (HashDir (FsObj open_err stat_err isDir (Inr contents') readFile))
       \<and> (\<forall>m ks. mset ks = mset (rangeKeys m) \<longrightarrow> sortStrings ks = sortStrings (rangeKeys m))"
proof -
  have listing:
    "digest_of (HashDir_pseudoFile (FsObj open_err stat_err isDir (Inr contents) readFile))
       = digest_of (HashDir_pseudoFile (FsObj open_err stat_err isDir (Inr contents') readFile))"
    using loop_result_permuted [OF assms] by (simp split: option.splits)
  then have
    "digest_of (HashDir (FsObj open_err stat_err isDir (Inr contents) readFile))
       = digest_of (HashDir (FsObj open_err stat_err isDir (Inr contents') readFile))"
    by (simp only: digest_of_HashDir)
  moreover have
    "\<forall>m ks. mset ks = mset (rangeKeys m) \<longrightarrow> sortStrings ks = sortStrings (rangeKeys m)"
    by (blast intro: sortStrings_any_order)
  ultimately show ?thesis
    using listing by (intro conjI)
qed

text \<open>Claim C5 at the scenario: \<^verbatim>\<open>root\<close> enumerated in the two possible orders.\<close>

theorem enumeration_order_irrelevant_witness:
  "digest_of (HashDir scenario_root)
     = digest_of (HashDir
         (directory [Dirent ''sub'' True scenario_sub, Dirent ''empty'' False (regular_file [])]))
   \<and> (\<exists>digest. HashDir scenario_root = Inr digest)"
proof -
  have "mset [Dirent ''sub'' True scenario_sub, Dirent ''empty'' False (regular_file [])]
          = mset [Dirent ''empty'' False (regular_file []), Dirent ''sub'' True scenario_sub]"
    by simp
  moreover have "distinct (map Name
      [Dirent ''empty'' False (regular_file []), Dirent ''sub'' True scenario_sub])"
    by simp
  ultimately have "digest_of (HashDir (FsObj None None True
        (Inr [Dirent ''empty'' False (regular_file []), Dirent ''sub'' True scenario_sub])
        (Inl (OSError 21))))
     = digest_of (HashDir (FsObj None None True
        (Inr [Dirent ''sub'' True scenario_sub, Dirent ''empty'' False (regular_file [])])
        (Inl (OSError 21))))"
    by (rule enumeration_order_irrelevant [THEN conjunct2, THEN conjunct1])
  moreover have "\<exists>digest. HashDir scenario_root = Inr digest"
    by (simp add: scenario_root_pseudoFile)
  ultimately show ?thesis
    by (simp add: scenario_root_def directory_def)
qed

subsection \<open>The whole tree\<close>

lemma hashContents_cong:
  assumes "list_all2 (\<lambda>x y. Name x = Name y \<and> IsDir x = IsDir y
                             \<and> digest_of (hashChild x) = digest_of (hashChild y)) xs ys"
  shows "(\<exists>e e'. hashContents xs dirs files = Inl e \<and> hashContents ys dirs files = Inl e')
       \<or> (\<exists>r. hashContents xs dirs files = Inr r \<and> hashContents ys dirs files = Inr r)"
  using assms
proof (induction arbitrary: dirs files rule: list_all2_induct)
  case Nil
  show ?case by simp
next
  case (Cons x xs y ys)
  then have n: "Name x = Name y" and k: "IsDir x = IsDir y"
    and h: "digest_of (hashChild x) = digest_of (hashChild y)"
    by simp_all
  show ?case
  proof (cases "hashChild x")
    case (Inl e)
    with h obtain e' where e': "hashChild y = Inl e'"
      by (cases "hashChild y") (simp_all add: digest_of_def)
    from Inl e' k have "hashContents (x # xs) dirs files = Inl e"
      and "hashContents (y # ys) dirs files = Inl e'"
      by (simp_all add: hashChild_def split: if_splits)
    then show ?thesis
      by simp
  next
    case (Inr d)
    with h have d': "hashChild y = Inr d"
      by (cases "hashChild y") (simp_all add: digest_of_def)
    show ?thesis
    proof (cases "IsDir x")
      case True
      with Inr d' k n have "hashContents (x # xs) dirs files
            = hashContents xs (AList.update (Name x) (hexX d) dirs) files"
        and "hashContents (y # ys) dirs files
            = hashContents ys (AList.update (Name x) (hexX d) dirs) files"
        by (simp_all add: hashChild_def)
      with Cons.IH [of "AList.update (Name x) (hexX d) dirs" files] show ?thesis
        by simp
    next
      case False
      with Inr d' k n have "hashContents (x # xs) dirs files
            = hashContents xs dirs (AList.update (Name x) (hexX d) files)"
        and "hashContents (y # ys) dirs files
            = hashContents ys dirs (AList.update (Name x) (hexX d) files)"
        by (simp_all add: hashChild_def)
      with Cons.IH [of dirs "AList.update (Name x) (hexX d) files"] show ?thesis
        by simp
    qed
  qed
qed

lemma loop_result_cong:
  assumes "list_all2 (\<lambda>x y. Name x = Name y \<and> IsDir x = IsDir y
                             \<and> digest_of (hashChild x) = digest_of (hashChild y)) xs ys"
  shows "digest_of (case hashContents xs [] [] of
                      Inl err \<Rightarrow> Inl err
                    | Inr (dirs, files) \<Rightarrow> Inr (pseudoFile_of dirs files))
       = digest_of (case hashContents ys [] [] of
                      Inl err \<Rightarrow> Inl err
                    | Inr (dirs, files) \<Rightarrow> Inr (pseudoFile_of dirs files))"
  using hashContents_cong [OF assms, of "[]" "[]"] by (auto simp: digest_of_def)

text \<open>
  The order of the enumeration at every level of the tree: two objects that show the same
  tree give the same pseudo-file and the same digest, or none both.
\<close>

lemma same_tree_results:
  assumes "same_tree a b"
  shows "digest_of (HashDir_pseudoFile a) = digest_of (HashDir_pseudoFile b)
       \<and> HashFile a = HashFile b"
  using assms
proof (induction rule: same_tree.induct)
  case (unlisted open_err stat_err isDir err readFile)
  show ?case by simp
next
  case (listed xs ys ys' open_err stat_err isDir readFile)
  have matched: "list_all2 (\<lambda>x y. Name x = Name y \<and> IsDir x = IsDir y
                             \<and> digest_of (hashChild x) = digest_of (hashChild y)) xs ys"
    using listed.IH
    by (rule list_all2_mono) (auto simp: hashChild_def digest_of_HashDir simp del: HashDir.simps)
  from listed.IH have "map Name xs = map Name ys"
    by (induction rule: list_all2_induct) simp_all
  with listed.hyps have d: "distinct (map Name ys)"
    by simp
  have "digest_of (case hashContents xs [] [] of
                      Inl err \<Rightarrow> Inl err
                    | Inr (dirs, files) \<Rightarrow> Inr (pseudoFile_of dirs files))
       = digest_of (case hashContents ys' [] [] of
                      Inl err \<Rightarrow> Inl err
                    | Inr (dirs, files) \<Rightarrow> Inr (pseudoFile_of dirs files))"
    using loop_result_cong [OF matched] loop_result_permuted [OF listed.hyps(1) d] by simp
  then have "digest_of (HashDir_pseudoFile (FsObj open_err stat_err isDir (Inr xs) readFile))
      = digest_of (HashDir_pseudoFile (FsObj open_err stat_err isDir (Inr ys') readFile))"
    by (simp split: option.splits)
  then show ?case
    by (simp add: HashFile_def)
qed

lemma same_tree_digest:
  "same_tree a b \<Longrightarrow> digest_of (HashDir a) = digest_of (HashDir b)"
  by (simp only: digest_of_HashDir same_tree_results)

text \<open>The tree of the scenario under its two enumerations.\<close>

lemma same_tree_regular_file: "same_tree (regular_file contents) (regular_file contents)"
  unfolding regular_file_def by (rule same_tree.unlisted)

lemma same_tree_scenario_sub: "same_tree scenario_sub scenario_sub"
  unfolding scenario_sub_def directory_def
  by (rule same_tree.listed
        [where ys = "[Dirent ''a.txt'' False (regular_file (bytes_of_string ''hi''))]"])
     (simp_all add: same_tree_regular_file)

lemma same_tree_scenario_root:
  "same_tree scenario_root
     (directory [Dirent ''sub'' True scenario_sub, Dirent ''empty'' False (regular_file [])])"
  unfolding scenario_root_def directory_def
  by (rule same_tree.listed
        [where ys = "[Dirent ''empty'' False (regular_file []), Dirent ''sub'' True scenario_sub]"])
     (simp_all add: same_tree_regular_file same_tree_scenario_sub)

end
